theory Spec2Isabelle
  imports Main "HOL-Library.Word" "HOL-Library.AList"
begin

unbundle bit_operations_syntax

section \<open>JavaScript values used by the slip verification\<close>

text \<open>
  The code under study is \<^verbatim>\<open>src/utils/emvco.js\<close> (\<^verbatim>\<open>parseEMV\<close>, \<^verbatim>\<open>verifyCRC\<close>,
  \<^verbatim>\<open>crc16ccitt\<close>) and the slip check inside the checkout handler of \<^verbatim>\<open>src/server.js\<close>.

  A JavaScript string is modelled as a \<open>string\<close>: one \<open>char\<close> per code unit. The
  character-specific operations (\<^verbatim>\<open>toUpperCase\<close>, the white space skipped by
  \<^verbatim>\<open>parseInt\<close>, the digits) are modelled for the ASCII range, which is the alphabet
  the specification gives to a payload.

  The numbers that \<^verbatim>\<open>parseEMV\<close> computes with are integers or \<^verbatim>\<open>NaN\<close>: the cursor
  starts at 0 and only integers returned by \<^verbatim>\<open>parseInt\<close> are added to it.
\<close>

datatype number = Num int | NaN

fun plus_number :: "number \<Rightarrow> number \<Rightarrow> number" where
  "plus_number (Num a) (Num b) = Num (a + b)"
| "plus_number _ _ = NaN"

fun less_number :: "number \<Rightarrow> number \<Rightarrow> bool" where
  "less_number (Num a) (Num b) = (a < b)"
| "less_number _ _ = False"

text \<open>\<^verbatim>\<open>ToIntegerOrInfinity\<close>: an index argument that is \<^verbatim>\<open>NaN\<close> counts as 0.\<close>

fun toIntegerOrInfinity :: "number \<Rightarrow> int" where
  "toIntegerOrInfinity (Num k) = k"
| "toIntegerOrInfinity NaN = 0"

text \<open>
  \<^verbatim>\<open>String.prototype.slice(start, end)\<close>: a negative index counts from the end of the
  string, every index is clamped to the string, and an empty range gives the empty
  string. It never reads outside the string and never throws.
\<close>

definition slice_str :: "string \<Rightarrow> number \<Rightarrow> number \<Rightarrow> string" where
  "slice_str s start fin =
     (let len = int (length s);
          relStart = toIntegerOrInfinity start;
          from = (if relStart < 0 then max (len + relStart) 0 else min relStart len);
          relEnd = toIntegerOrInfinity fin;
          to = (if relEnd < 0 then max (len + relEnd) 0 else min relEnd len)
      in take (nat (to - from)) (drop (nat from) s))"

text \<open>\<^verbatim>\<open>String.prototype.substr(start, length)\<close> for a start that is not negative.\<close>

definition substr :: "string \<Rightarrow> nat \<Rightarrow> nat \<Rightarrow> string" where
  "substr s start n = take n (drop start s)"

text \<open>
  \<^verbatim>\<open>parseInt(string, radix)\<close> for a radix from 2 to 36: leading white space is skipped,
  one sign is read, with radix 16 a prefix \<^verbatim>\<open>0x\<close> or \<^verbatim>\<open>0X\<close> is removed, and the longest
  run of digits of the radix is the value; no digit at all gives \<^verbatim>\<open>NaN\<close>.
\<close>

definition isWhiteSpace :: "char \<Rightarrow> bool" where
  "isWhiteSpace c = (c \<in> set [CHR 0x09, CHR 0x0A, CHR 0x0B, CHR 0x0C, CHR 0x0D, CHR '' ''])"

definition digitValue :: "char \<Rightarrow> nat option" where
  "digitValue c =
     (let k = of_char c :: nat in
      if 48 \<le> k \<and> k \<le> 57 then Some (k - 48)
      else if 65 \<le> k \<and> k \<le> 90 then Some (k - 55)
      else if 97 \<le> k \<and> k \<le> 122 then Some (k - 87)
      else None)"

definition isRadixDigit :: "nat \<Rightarrow> char \<Rightarrow> bool" where
  "isRadixDigit R c = (case digitValue c of None \<Rightarrow> False | Some d \<Rightarrow> d < R)"

definition digitsValue :: "nat \<Rightarrow> string \<Rightarrow> nat" where
  "digitsValue R ds = foldl (\<lambda>acc c. acc * R + the (digitValue c)) 0 ds"

definition parseInt :: "string \<Rightarrow> nat \<Rightarrow> number" where
  "parseInt inputString R =
     (let S = dropWhile isWhiteSpace inputString;
          sign = (if S \<noteq> [] \<and> hd S = CHR ''-'' then - 1 else 1 :: int);
          S = (if S \<noteq> [] \<and> (hd S = CHR ''+'' \<or> hd S = CHR ''-'') then tl S else S);
          S = (if R = 16 \<and> (take 2 S = ''0x'' \<or> take 2 S = ''0X'') then drop 2 S else S);
          Z = takeWhile (isRadixDigit R) S
      in if Z = [] then NaN else Num (sign * int (digitsValue R Z)))"

text \<open>\<^verbatim>\<open>toUpperCase\<close> on ASCII characters.\<close>

definition toUpper :: "char \<Rightarrow> char" where
  "toUpper c =
     (let k = of_char c :: nat in if 97 \<le> k \<and> k \<le> 122 then char_of (k - 32) else c)"

definition toUpperCase :: "string \<Rightarrow> string" where
  "toUpperCase s = map toUpper s"

text \<open>\<^verbatim>\<open>String.prototype.indexOf\<close>: the first position of the pattern, or \<open>-1\<close>.\<close>

fun indexOf :: "string \<Rightarrow> string \<Rightarrow> int" where
  "indexOf [] t = (if t = [] then 0 else - 1)"
| "indexOf (c # r) t =
     (if take (length t) (c # r) = t then 0
      else (let k = indexOf r t in if k < 0 then - 1 else k + 1))"

text \<open>\<^verbatim>\<open>String.prototype.includes\<close>.\<close>

fun includes_str :: "string \<Rightarrow> string \<Rightarrow> bool" where
  "includes_str [] t = (t = [])"
| "includes_str (c # r) t = (take (length t) (c # r) = t \<or> includes_str r t)"

section \<open>The TLV parser: \<^verbatim>\<open>parseEMV\<close>\<close>

text \<open>
  The object returned by \<^verbatim>\<open>parseEMV\<close> maps a tag to a string or, for a template tag, to
  \<^verbatim>\<open>{ raw, sub }\<close>. It is kept as an association list in insertion order; an assignment
  \<^verbatim>\<open>out[tag] = v\<close> is \<open>AList.update\<close>. The consumers only look tags up and test the
  values with \<^verbatim>\<open>some\<close>, so the enumeration order of the object is not observable.
\<close>

datatype tlv = Flat string | Composite string "(string \<times> tlv) list"

type_synonym tlv_map = "(string \<times> tlv) list"

definition composite_tags :: "string list" where
  "composite_tags = [''26'', ''27'', ''28'', ''29'', ''30'', ''31'', ''32'']"

text \<open>
  The \<^verbatim>\<open>while\<close> loop of \<^verbatim>\<open>parseEMV\<close>, with the cursor \<open>i\<close> and the object \<open>out\<close> as
  arguments. A negative length moves the cursor backwards, so the loop need not end:
  the result \<open>None\<close> stands for a call that never returns a value.
\<close>

partial_function (option) parseEMV_loop :: "string \<Rightarrow> number \<Rightarrow> tlv_map \<Rightarrow> tlv_map option" where
  "parseEMV_loop s i out =
     (if less_number i (Num (int (length s))) then
        (let tag = slice_str s i (plus_number i (Num 2)); i1 = plus_number i (Num 2);
             len = parseInt (slice_str s i1 (plus_number i1 (Num 2))) 10; i2 = plus_number i1 (Num 2);
             val = slice_str s i2 (plus_number i2 len); i3 = plus_number i2 len;
             out1 = AList.update tag (Flat val) out
         in if tag \<in> set composite_tags
            then Option.bind (parseEMV_loop val (Num 0) [])
                   (\<lambda>sub. parseEMV_loop s i3 (AList.update tag (Composite val sub) out1))
            else parseEMV_loop s i3 out1)
      else Some out)"

declare parseEMV_loop.simps [code]

definition parseEMV :: "string \<Rightarrow> tlv_map option" where
  "parseEMV s = parseEMV_loop s (Num 0) []"

section \<open>The checksum: \<^verbatim>\<open>crc16ccitt\<close> and \<^verbatim>\<open>verifyCRC\<close>\<close>

text \<open>
  The bitwise operators of JavaScript work on 32-bit integers: \<^verbatim>\<open>ToInt32\<close> wraps an
  integer and sends \<^verbatim>\<open>NaN\<close> to 0.
\<close>

fun toInt32 :: "number \<Rightarrow> 32 word" where
  "toInt32 (Num k) = word_of_int k"
| "toInt32 NaN = 0"

text \<open>The inner loop \<^verbatim>\<open>for (let j = 0; j < 8; j++)\<close>, counting the rounds that are left.\<close>

fun crc_rounds :: "nat \<Rightarrow> 32 word \<Rightarrow> 32 word" where
  "crc_rounds 0 crc = crc"
| "crc_rounds (Suc j) crc =
     crc_rounds j
       ((if crc AND 0x8000 \<noteq> 0 then push_bit 1 crc XOR 0x1021 else push_bit 1 crc) AND 0xFFFF)"

text \<open>The outer loop \<^verbatim>\<open>for (let i = 0; i < hex.length; i += 2)\<close>.\<close>

function crc16ccitt_loop :: "string \<Rightarrow> nat \<Rightarrow> 32 word \<Rightarrow> 32 word" where
  "crc16ccitt_loop hex i crc =
     (if i < length hex then
        (let byte = parseInt (substr hex i 2) 16;
             crc = crc XOR push_bit 8 (toInt32 byte)
         in crc16ccitt_loop hex (i + 2) (crc_rounds 8 crc))
      else crc)"
  by pat_completeness auto
termination
  by (relation "measure (\<lambda>(hex, i, crc). length hex - i)") auto

text \<open>\<^verbatim>\<open>Number.prototype.toString(16)\<close> on an integer, and \<^verbatim>\<open>padStart(4, '0')\<close>.\<close>

definition hexDigit :: "nat \<Rightarrow> char" where
  "hexDigit d = ''0123456789abcdef'' ! d"

fun digits16 :: "nat \<Rightarrow> string" where
  "digits16 n = (if n < 16 then [hexDigit n] else digits16 (n div 16) @ [hexDigit (n mod 16)])"

declare digits16.simps [simp del]

definition toString16 :: "int \<Rightarrow> string" where
  "toString16 k = (if k < 0 then ''-'' @ digits16 (nat (- k)) else digits16 (nat k))"

definition padStart :: "string \<Rightarrow> nat \<Rightarrow> char \<Rightarrow> string" where
  "padStart s n c = replicate (n - length s) c @ s"

definition crc16ccitt :: "string \<Rightarrow> string" where
  "crc16ccitt hex = padStart (toString16 (sint (crc16ccitt_loop hex 0 0xFFFF))) 4 (CHR ''0'')"

record crc_result =
  ok :: bool
  expected :: "string option"
  actual :: "string option"

definition verifyCRC :: "string \<Rightarrow> crc_result" where
  "verifyCRC payload =
     (let idx = indexOf payload ''6304'' in
      if idx < 0 then \<lparr>ok = False, expected = None, actual = None\<rparr>
      else
        (let dataNoCRC = slice_str payload (Num 0) (Num (idx + 4));
             actual = toUpperCase (slice_str payload (Num (idx + 4)) (Num (idx + 8)));
             expected = toUpperCase (crc16ccitt dataNoCRC)
         in \<lparr>ok = (expected = actual), expected = Some expected, actual = Some actual\<rparr>))"

section \<open>The slip check of the checkout handler\<close>

text \<open>
  The block of \<^verbatim>\<open>src/server.js\<close> that runs on the decoded text of an attached slip.
  \<open>payload\<close> is \<open>None\<close> when the decoder gave \<^verbatim>\<open>null\<close>. \<open>expectedPromptpay\<close> is the
  configured receiver id, the empty string when none is configured.

  The amount test \<^verbatim>\<open>Math.abs(Number(v) - Number(total)) < 0.01\<close> is double-precision
  arithmetic; it is not computed here but taken as the parameter \<open>near\<close>, a predicate
  on the text \<open>v\<close> handed to \<^verbatim>\<open>Number\<close>.
\<close>

datatype slip_status = PENDING | VERIFIED_PRELIM | REVIEW

record verdict =
  slipStatus :: slip_status
  slipReason :: "string option"

text \<open>The test \<^verbatim>\<open>/^[0-9A-F]+$/i.test(payload)\<close>.\<close>

definition isHexChar :: "char \<Rightarrow> bool" where
  "isHexChar c =
     (let k = of_char c :: nat in
      (48 \<le> k \<and> k \<le> 57) \<or> (65 \<le> k \<and> k \<le> 70) \<or> (97 \<le> k \<and> k \<le> 102))"

definition hexShape :: "string \<Rightarrow> bool" where
  "hexShape payload = (payload \<noteq> [] \<and> list_all isHexChar payload)"

text \<open>\<^verbatim>\<open>tlv['29']?.sub || tlv['26']?.sub || null\<close>; a string has no \<^verbatim>\<open>sub\<close>.\<close>

definition sub_of :: "tlv option \<Rightarrow> tlv_map option" where
  "sub_of v = (case v of Some (Composite raw sub) \<Rightarrow> Some sub | _ \<Rightarrow> None)"

definition merchant :: "tlv_map \<Rightarrow> tlv_map option" where
  "merchant tlv =
     (case sub_of (map_of tlv ''29'') of
        Some sub \<Rightarrow> Some sub
      | None \<Rightarrow> sub_of (map_of tlv ''26''))"

text \<open>
  \<^verbatim>\<open>tlv['54'] ? Number(tlv['54']) : null\<close>: the text that \<^verbatim>\<open>Number\<close> converts, or
  \<open>None\<close> for \<^verbatim>\<open>null\<close>. The empty string is falsy; an object is converted through its
  string form.
\<close>

definition amount :: "tlv_map \<Rightarrow> string option" where
  "amount tlv =
     (case map_of tlv ''54'' of
        None \<Rightarrow> None
      | Some (Flat v) \<Rightarrow> (if v \<noteq> [] then Some v else None)
      | Some (Composite raw sub) \<Rightarrow> Some ''[object Object]'')"

text \<open>\<^verbatim>\<open>(tlv['58'] || '').toString().toUpperCase()\<close>.\<close>

definition currency :: "tlv_map \<Rightarrow> string" where
  "currency tlv =
     toUpperCase
       (case map_of tlv ''58'' of
          None \<Rightarrow> []
        | Some (Flat v) \<Rightarrow> v
        | Some (Composite raw sub) \<Rightarrow> ''[object Object]'')"

text \<open>
  \<^verbatim>\<open>accountMatches\<close> is \<^verbatim>\<open>true\<close> without a configured id, \<^verbatim>\<open>null\<close> (here \<open>None\<close>) when
  an id is configured and no template was found, and otherwise the result of
  \<^verbatim>\<open>Object.values(m).some(...)\<close>.
\<close>

definition isStringIncluding :: "string \<Rightarrow> tlv \<Rightarrow> bool" where
  "isStringIncluding e v = (case v of Flat str \<Rightarrow> includes_str str e | Composite raw sub \<Rightarrow> False)"

definition accountMatches :: "string \<Rightarrow> tlv_map \<Rightarrow> bool option" where
  "accountMatches expectedPromptpay tlv =
     (if expectedPromptpay \<noteq> [] then
        (case merchant tlv of
           None \<Rightarrow> None
         | Some m \<Rightarrow> Some (list_ex (isStringIncluding expectedPromptpay) (map snd m)))
      else Some True)"

definition amountMatches :: "(string \<Rightarrow> bool) \<Rightarrow> tlv_map \<Rightarrow> bool" where
  "amountMatches near tlv = (case amount tlv of None \<Rightarrow> True | Some v \<Rightarrow> near v)"

definition currencyOK :: "tlv_map \<Rightarrow> bool" where
  "currencyOK tlv =
     (currency tlv = [] \<or> currency tlv = ''TH'' \<or> currency tlv = ''THB'' \<or> currency tlv = ''764'')"

text \<open>\<^verbatim>\<open>JSON.stringify\<close> of the record of the four results.\<close>

definition jsonEscape :: "char \<Rightarrow> string" where
  "jsonEscape c =
     (let k = of_char c :: nat in
      if k = 8 then [CHR 0x5C, CHR ''b'']
      else if k = 9 then [CHR 0x5C, CHR ''t'']
      else if k = 10 then [CHR 0x5C, CHR ''n'']
      else if k = 12 then [CHR 0x5C, CHR ''f'']
      else if k = 13 then [CHR 0x5C, CHR ''r'']
      else if k = 34 then [CHR 0x5C, CHR 0x22]
      else if k = 92 then [CHR 0x5C, CHR 0x5C]
      else if k < 32 then [CHR 0x5C, CHR ''u'', CHR ''0'', CHR ''0'', hexDigit (k div 16), hexDigit (k mod 16)]
      else [c])"

definition jsonString :: "string \<Rightarrow> string" where
  "jsonString s = [CHR 0x22] @ concat (map jsonEscape s) @ [CHR 0x22]"

definition jsonBool :: "bool \<Rightarrow> string" where
  "jsonBool b = (if b then ''true'' else ''false'')"

definition jsonBoolOrNull :: "bool option \<Rightarrow> string" where
  "jsonBoolOrNull b = (case b of None \<Rightarrow> ''null'' | Some v \<Rightarrow> jsonBool v)"

definition reasonJSON :: "bool \<Rightarrow> bool option \<Rightarrow> bool \<Rightarrow> string \<Rightarrow> string" where
  "reasonJSON crcOk acc amt cur =
     ''{'' @ jsonString ''crc'' @ '':'' @ jsonBool crcOk @ '','' @
     jsonString ''accountMatches'' @ '':'' @ jsonBoolOrNull acc @ '','' @
     jsonString ''amountMatches'' @ '':'' @ jsonBool amt @ '','' @
     jsonString ''currency'' @ '':'' @ jsonString cur @ ''}''"

text \<open>
  The slip check. The result is \<open>None\<close> only when \<^verbatim>\<open>parseEMV\<close> does not return. No
  operation of the block throws on a string, and a failure of the decoder has already
  become the payload \<^verbatim>\<open>null\<close>, so the \<^verbatim>\<open>catch\<close> branch of the handler has no case here.
\<close>

definition verifySlip :: "(string \<Rightarrow> bool) \<Rightarrow> string \<Rightarrow> string option \<Rightarrow> verdict option" where
  "verifySlip near expectedPromptpay payload =
     (case payload of
        None \<Rightarrow> Some \<lparr>slipStatus = REVIEW, slipReason = Some ''QR not found or invalid''\<rparr>
      | Some p \<Rightarrow>
          if p \<noteq> [] \<and> hexShape p then
            (let crc = verifyCRC p in
             case parseEMV p of
               None \<Rightarrow> None
             | Some tlv \<Rightarrow>
                 if ok crc \<and> accountMatches expectedPromptpay tlv = Some True
                    \<and> amountMatches near tlv \<and> currencyOK tlv
                 then Some \<lparr>slipStatus = VERIFIED_PRELIM, slipReason = None\<rparr>
                 else Some \<lparr>slipStatus = REVIEW,
                            slipReason = Some (reasonJSON (ok crc) (accountMatches expectedPromptpay tlv)
                                                 (amountMatches near tlv) (currency tlv))\<rparr>)
          else Some \<lparr>slipStatus = REVIEW, slipReason = Some ''QR not found or invalid''\<rparr>)"

section \<open>The checksum in the words of the specification\<close>

text \<open>
  CRC-16/CCITT-FALSE on a 16-bit register: polynomial \<open>0x1021\<close>, initial value
  \<open>0xFFFF\<close>, most significant bit first, no final XOR. One shift: if the top bit is
  set, shift left and XOR with the polynomial, else shift left; a \<open>16 word\<close> keeps 16
  bits. One byte: XOR it into the top 8 bits, then shift 8 times.
\<close>

definition crc_shift :: "16 word \<Rightarrow> 16 word" where
  "crc_shift r = (if bit r 15 then push_bit 1 r XOR 0x1021 else push_bit 1 r)"

definition crc_update :: "16 word \<Rightarrow> 8 word \<Rightarrow> 16 word" where
  "crc_update r b = (crc_shift ^^ 8) (r XOR push_bit 8 (ucast b))"

definition crc16_ccitt_false :: "8 word list \<Rightarrow> 16 word" where
  "crc16_ccitt_false bs = foldl crc_update 0xFFFF bs"

text \<open>
  The bytes of a text, two characters per byte (a last single character is a byte of
  its own). \<open>hexDecode\<close> reads hexadecimal digits; \<open>hexBytes\<close> reads any chunk the
  way \<^verbatim>\<open>parseInt(chunk, 16)\<close> followed by a bitwise operator does (\<^verbatim>\<open>NaN\<close> counts as 0,
  the low 8 bits are kept). On hexadecimal digits the two agree (\<open>hexBytes_hex\<close>).
\<close>

definition hexValue :: "char \<Rightarrow> nat" where
  "hexValue c = (case digitValue c of Some v \<Rightarrow> v | None \<Rightarrow> 0)"

fun hexDecode :: "string \<Rightarrow> 8 word list" where
  "hexDecode [] = []"
| "hexDecode [c] = [word_of_nat (hexValue c)]"
| "hexDecode (c # d # r) = word_of_nat (16 * hexValue c + hexValue d) # hexDecode r"

definition hexByte :: "string \<Rightarrow> 8 word" where
  "hexByte chunk = ucast (toInt32 (parseInt chunk 16))"

fun hexBytes :: "string \<Rightarrow> 8 word list" where
  "hexBytes [] = []"
| "hexBytes [c] = [hexByte [c]]"
| "hexBytes (c # d # r) = hexByte [c, d] # hexBytes r"

text \<open>A 16-bit value as exactly four upper-case hexadecimal digits.\<close>

definition hex4 :: "16 word \<Rightarrow> string" where
  "hex4 r = map (\<lambda>i. ''0123456789ABCDEF'' ! (unat r div 16 ^ i mod 16)) [3, 2, 1, 0]"

section \<open>Synthetic payloads\<close>

text \<open>
  A well-formed field is the tag, the length of the value as two decimal digits, and
  the value; a well-formed stream is a concatenation of fields. These describe the
  inputs of the round-trip properties; the parser does not use them.
\<close>

definition pad2 :: "nat \<Rightarrow> string" where
  "pad2 n = [char_of (48 + n div 10), char_of (48 + n mod 10)]"

definition tlvField :: "string \<times> string \<Rightarrow> string" where
  "tlvField f = fst f @ pad2 (length (snd f)) @ snd f"

definition tlvEncode :: "(string \<times> string) list \<Rightarrow> string" where
  "tlvEncode fs = concat (map tlvField fs)"

text \<open>What the parser stores for a well-formed field, when the nested parse returns.\<close>

definition stored :: "string \<times> string \<Rightarrow> tlv \<Rightarrow> bool" where
  "stored f node =
     (if fst f \<in> set composite_tags
      then \<exists>sub. parseEMV (snd f) = Some sub \<and> node = Composite (snd f) sub
      else node = Flat (snd f))"


section \<open>Facts about the string operations and the parser loop\<close>


lemma slice_str_nonneg:
  "slice_str s (Num (int a)) (Num (int b)) = take (b - a) (drop a s)"
proof (cases "a < length s")
  case True
  then show ?thesis
    by (cases "b \<le> length s") (auto simp: slice_str_def Let_def min_def nat_diff_distrib')
next
  case False
  then show ?thesis
    by (simp add: slice_str_def Let_def min_def)
qed




lemma parseEMV_loop_end:
  "\<not> less_number i (Num (int (length s))) \<Longrightarrow> parseEMV_loop s i out = Some out"
  by (subst parseEMV_loop.simps) simp

lemma parseEMV_loop_step:
  assumes "k < length s"
  shows "parseEMV_loop s (Num (int k)) out =
     (let tag = take 2 (drop k s);
          len = parseInt (take 2 (drop (k + 2) s)) 10;
          val = slice_str s (Num (int (k + 4))) (plus_number (Num (int (k + 4))) len);
          i3 = plus_number (Num (int (k + 4))) len
      in if tag \<in> set composite_tags
         then Option.bind (parseEMV_loop val (Num 0) [])
                (\<lambda>sub. parseEMV_loop s i3 (AList.update tag (Composite val sub) out))
         else parseEMV_loop s i3 (AList.update tag (Flat val) out))"
proof -
  have a: "slice_str s (Num (int k)) (Num (int k + 2)) = take 2 (drop k s)"
    using slice_str_nonneg [of s k "k + 2"] by (simp add: add.commute)
  have b: "slice_str s (Num (int k + 2)) (Num (int k + 2 + 2)) = take 2 (drop (k + 2) s)"
    using slice_str_nonneg [of s "k + 2" "k + 4"] by (simp add: add.commute)
  have c: "Num (int k + 2 + 2) = Num (int (k + 4))"
    by simp
  have d: "less_number (Num (int k)) (Num (int (length s)))"
    using assms by simp
  show ?thesis
    apply (subst parseEMV_loop.simps)
    apply (simp only: d if_True Let_def plus_number.simps)
    apply (simp only: b)
    apply (simp only: a c AList.update_last)
    done
qed




text \<open>
  A length field \<^verbatim>\<open>-4\<close> right after a tag at the start moves the cursor back to 0:
  the loop repeats the same round for ever.
\<close>

lemma step_00m4:
  "parseEMV_loop ''00-4'' (Num 0) out = parseEMV_loop ''00-4'' (Num 0) (AList.update ''00'' (Flat []) out)"
  by (subst parseEMV_loop.simps)
     (simp add: slice_str_def parseInt_def Let_def isWhiteSpace_def isRadixDigit_def
        digitValue_def digitsValue_def composite_tags_def)

lemma parseEMV_loop_00m4_aux:
  "parseEMV_loop s i out = Some y \<Longrightarrow> \<not> (s = ''00-4'' \<and> i = Num 0)"
proof (induction rule: parseEMV_loop.raw_induct [rotated 1, consumes 1, case_names step])
  case (step f s i out y)
  show ?case
  proof
    assume a: "s = ''00-4'' \<and> i = Num 0"
    with step(2) have "f ''00-4'' (Num 0) (AList.update ''00'' (Flat []) out) = Some y"
      by (simp add: slice_str_def parseInt_def Let_def isWhiteSpace_def isRadixDigit_def
        digitValue_def digitsValue_def composite_tags_def)
    from step(1) [OF this] show False by simp
  qed
qed

lemma parseEMV_00m4: "parseEMV ''00-4'' = None"
  using parseEMV_loop_00m4_aux [of "''00-4''" "Num 0" "[]"]
  by (cases "parseEMV ''00-4''") (auto simp: parseEMV_def)







section \<open>Well-formed fields\<close>

lemma isWhiteSpace_iff: "isWhiteSpace c \<longleftrightarrow> (of_char c :: nat) \<in> {9, 10, 11, 12, 13, 32}"
  unfolding isWhiteSpace_def
  by (cases c) (simp add: eval_nat_numeral)

lemma decimal_digit_facts:
  assumes "d < 10"
  shows "\<not> isWhiteSpace (char_of (48 + d))" "char_of (48 + d) \<noteq> CHR ''-''" "char_of (48 + d) \<noteq> CHR ''+''"
    "digitValue (char_of (48 + d)) = Some d" "isRadixDigit 10 (char_of (48 + d))"
proof -
  have oc: "(of_char (char_of (48 + d)) :: nat) = 48 + d"
    using assms by simp
  show "\<not> isWhiteSpace (char_of (48 + d))"
    unfolding isWhiteSpace_iff oc using assms by simp
  have "(of_char (char_of (48 + d)) :: nat) \<noteq> of_char CHR ''-''"
    unfolding oc by simp
  then show "char_of (48 + d) \<noteq> CHR ''-''"
    by metis
  have "(of_char (char_of (48 + d)) :: nat) \<noteq> of_char CHR ''+''"
    unfolding oc by simp
  then show "char_of (48 + d) \<noteq> CHR ''+''"
    by metis
  show dv: "digitValue (char_of (48 + d)) = Some d"
    unfolding digitValue_def Let_def oc using assms by simp
  show "isRadixDigit 10 (char_of (48 + d))"
    unfolding isRadixDigit_def dv using assms by simp
qed

lemma parseInt_pad2:
  assumes "n < 100"
  shows "parseInt (pad2 n) 10 = Num (int n)"
proof -
  let ?a = "char_of (48 + n div 10) :: char" and ?b = "char_of (48 + n mod 10) :: char"
  have a: "n div 10 < 10" and b: "n mod 10 < 10"
    using assms by simp_all
  note fa = decimal_digit_facts [OF a] and fb = decimal_digit_facts [OF b]
  have "digitsValue 10 [?a, ?b] = n"
    by (simp add: digitsValue_def fa fb)
  then show ?thesis
    by (simp add: parseInt_def pad2_def Let_def fa fb)
qed

lemma length_pad2 [simp]: "length (pad2 n) = 2"
  by (simp add: pad2_def)

lemma parseEMV_loop_field:
  assumes "length t = 2" and "length v \<le> 99"
  shows "parseEMV_loop (pre @ t @ pad2 (length v) @ v @ rest) (Num (int (length pre))) out =
     (if t \<in> set composite_tags
      then Option.bind (parseEMV v)
             (\<lambda>sub. parseEMV_loop (pre @ t @ pad2 (length v) @ v @ rest)
                     (Num (int (length pre + 4 + length v))) (AList.update t (Composite v sub) out))
      else parseEMV_loop (pre @ t @ pad2 (length v) @ v @ rest)
             (Num (int (length pre + 4 + length v))) (AList.update t (Flat v) out))"
proof -
  let ?s = "pre @ t @ pad2 (length v) @ v @ rest"
  let ?k = "length pre"
  have k: "?k < length ?s"
    using assms(1) by simp
  have tag: "take 2 (drop ?k ?s) = t"
    using assms(1) by simp
  have lf: "take 2 (drop (?k + 2) ?s) = pad2 (length v)"
    using assms(1) by (simp add: drop_append)
  have len: "parseInt (pad2 (length v)) 10 = Num (int (length v))"
    using assms(2) by (intro parseInt_pad2) simp
  have i3: "plus_number (Num (int (?k + 4))) (Num (int (length v))) = Num (int (?k + 4 + length v))"
    by simp
  have val: "slice_str ?s (Num (int (?k + 4))) (Num (int (?k + 4 + length v))) = v"
    unfolding slice_str_nonneg using assms(1) by (simp add: drop_append)
  show ?thesis
    unfolding parseEMV_loop_step [OF k] Let_def tag lf len i3 val parseEMV_def ..
qed

lemma parseEMV_loop_fields:
  assumes "list_all2 (\<lambda>f node. length (fst f) = 2 \<and> length (snd f) \<le> 99 \<and> stored f node) fs nodes"
  shows "parseEMV_loop (pre @ tlvEncode fs @ rest) (Num (int (length pre))) out =
         parseEMV_loop (pre @ tlvEncode fs @ rest) (Num (int (length pre + length (tlvEncode fs))))
           (foldl (\<lambda>o' p. AList.update (fst p) (snd p) o') out (zip (map fst fs) nodes))"
  using assms
proof (induction fs nodes arbitrary: pre out rule: list_all2_induct)
  case Nil
  then show ?case by (simp add: tlvEncode_def)
next
  case (Cons f fs node nodes)
  obtain t v where f: "f = (t, v)" by (cases f)
  from Cons.hyps(1) have t: "length t = 2" and v: "length v \<le> 99" and st: "stored (t, v) node"
    by (simp_all add: f)
  let ?s = "pre @ tlvEncode (f # fs) @ rest"
  have s: "?s = pre @ t @ pad2 (length v) @ v @ (tlvEncode fs @ rest)"
    by (simp add: tlvEncode_def tlvField_def f)
  have s': "?s = (pre @ tlvField f) @ tlvEncode fs @ rest"
    by (simp add: tlvEncode_def)
  have lf: "length (pre @ tlvField f) = length pre + 4 + length v"
    using t by (simp add: tlvField_def f)
  have step: "parseEMV_loop ?s (Num (int (length pre))) out =
        parseEMV_loop ?s (Num (int (length pre + 4 + length v))) (AList.update t node out)"
    unfolding s parseEMV_loop_field [OF t v]
    using st by (auto simp: stored_def)
  have "parseEMV_loop ?s (Num (int (length (pre @ tlvField f)))) (AList.update t node out) =
        parseEMV_loop ?s (Num (int (length (pre @ tlvField f) + length (tlvEncode fs))))
          (foldl (\<lambda>o' p. AList.update (fst p) (snd p) o') (AList.update t node out) (zip (map fst fs) nodes))"
    unfolding s' by (rule Cons.IH)
  moreover have "length (pre @ tlvField f) + length (tlvEncode fs) = length pre + length (tlvEncode (f # fs))"
    by (simp add: tlvEncode_def)
  ultimately show ?case
    unfolding step lf by (simp add: f)
qed

lemma update_new_key: "k \<notin> fst ` set al \<Longrightarrow> AList.update k v al = al @ [(k, v)]"
  by (induction al) auto

lemma foldl_update_distinct:
  "distinct (map fst (out @ xs)) \<Longrightarrow>
   foldl (\<lambda>o' p. AList.update (fst p) (snd p) o') out xs = out @ xs"
proof (induction xs arbitrary: out)
  case Nil
  then show ?case by simp
next
  case (Cons x xs)
  have "AList.update (fst x) (snd x) out = out @ [x]"
    using Cons.prems by (subst update_new_key) auto
  moreover have "distinct (map fst ((out @ [x]) @ xs))"
    using Cons.prems by simp
  ultimately show ?case
    using Cons.IH [of "out @ [x]"] by simp
qed

lemma parseEMV_fields:
  assumes "list_all2 (\<lambda>f node. length (fst f) = 2 \<and> length (snd f) \<le> 99 \<and> stored f node) fs nodes"
    and "distinct (map fst fs)"
  shows "parseEMV (tlvEncode fs) = Some (zip (map fst fs) nodes)"
proof -
  have len: "length fs = length nodes"
    using assms(1) by (rule list_all2_lengthD)
  have "parseEMV (tlvEncode fs) =
        parseEMV_loop (tlvEncode fs) (Num (int (length (tlvEncode fs))))
          (foldl (\<lambda>o' p. AList.update (fst p) (snd p) o') [] (zip (map fst fs) nodes))"
    using parseEMV_loop_fields [OF assms(1), of "[]" "[]" "[]"] by (simp add: parseEMV_def)
  also have "\<dots> = Some (foldl (\<lambda>o' p. AList.update (fst p) (snd p) o') [] (zip (map fst fs) nodes))"
    by (rule parseEMV_loop_end) simp
  also have "foldl (\<lambda>o' p. AList.update (fst p) (snd p) o') [] (zip (map fst fs) nodes) = zip (map fst fs) nodes"
    using foldl_update_distinct [of "[]" "zip (map fst fs) nodes"] assms(2) len by simp
  finally show ?thesis .
qed

section \<open>The checksum loop computes CRC-16/CCITT-FALSE\<close>

lemma and_8000: "(c :: 32 word) AND 0x8000 \<noteq> 0 \<longleftrightarrow> bit c 15"
proof -
  have "(0x8000 :: 32 word) = push_bit 15 1"
    by simp
  then show ?thesis
    by (metis and_exp_eq_0_iff_not_bit push_bit_of_1)
qed

lemma and_FFFF: "(c :: 32 word) AND 0xFFFF = take_bit 16 c"
proof -
  have "(0xFFFF :: 32 word) = mask 16"
    by (simp add: mask_eq_exp_minus_1)
  then show ?thesis
    by (simp add: take_bit_eq_mask)
qed

lemma low_push_bit:
  fixes c :: "32 word"
  shows "take_bit 16 (push_bit m c) = ucast (push_bit m (ucast c :: 16 word))"
  by (rule bit_word_eqI) (auto simp: bit_simps)

lemma low_push_bit_xor:
  fixes c :: "32 word" and k :: "16 word"
  shows "take_bit 16 (push_bit m c XOR ucast k) = ucast (push_bit m (ucast c :: 16 word) XOR k)"
  by (rule bit_word_eqI) (auto simp: bit_simps dest: bit_imp_le_length)

lemma round_low:
  fixes c :: "32 word"
  shows "(if c AND 0x8000 \<noteq> 0 then push_bit 1 c XOR 0x1021 else push_bit 1 c) AND 0xFFFF
         = ucast (crc_shift (ucast c))"
proof -
  have k: "(0x1021 :: 32 word) = ucast (0x1021 :: 16 word)"
    by simp
  have b: "bit (ucast c :: 16 word) 15 \<longleftrightarrow> bit c 15"
    by (simp add: bit_simps)
  have p: "take_bit 16 (push_bit 1 c) = ucast (push_bit 1 (ucast c :: 16 word))"
    by (rule low_push_bit)
  have x: "take_bit 16 (push_bit 1 c XOR ucast (0x1021 :: 16 word)) = ucast (push_bit 1 (ucast c :: 16 word) XOR 0x1021)"
    by (rule low_push_bit_xor)
  show ?thesis
    unfolding and_8000 and_FFFF crc_shift_def b k
    by (simp only: p x if_distrib [of "take_bit 16"] if_distrib [of ucast])
qed

lemma crc_rounds_ucast:
  fixes r :: "16 word"
  shows "crc_rounds n (ucast r) = ucast ((crc_shift ^^ n) r)"
proof (induction n arbitrary: r)
  case 0
  then show ?case by simp
next
  case (Suc n)
  have "crc_rounds (Suc n) (ucast r) = crc_rounds n (ucast (crc_shift (ucast (ucast r :: 32 word))))"
    by (simp only: crc_rounds.simps round_low)
  also have "(ucast (ucast r :: 32 word) :: 16 word) = r"
    by (rule bit_word_eqI) (auto simp: bit_simps dest: bit_imp_le_length)
  finally show ?case
    by (simp add: Suc.IH funpow_swap1)
qed

lemma crc_rounds_low:
  fixes c :: "32 word"
  shows "crc_rounds (Suc n) c = ucast ((crc_shift ^^ Suc n) (ucast c))"
proof -
  have "crc_rounds (Suc n) c = crc_rounds n (ucast (crc_shift (ucast c)))"
    by (simp only: crc_rounds.simps round_low)
  then show ?thesis
    by (simp add: crc_rounds_ucast funpow_swap1)
qed

lemma xor_byte_low:
  fixes r :: "16 word" and x :: "32 word"
  shows "(ucast (ucast r XOR push_bit 8 x) :: 16 word) = r XOR push_bit 8 (ucast (ucast x :: 8 word))"
  by (rule bit_word_eqI) (auto simp: bit_simps dest: bit_imp_le_length)

lemma crc_byte_step:
  fixes r :: "16 word"
  shows "crc_rounds 8 (ucast r XOR push_bit 8 (toInt32 (parseInt chunk 16))) = ucast (crc_update r (hexByte chunk))"
proof -
  have "crc_rounds 8 c = ucast ((crc_shift ^^ 8) (ucast c))" for c :: "32 word"
    using crc_rounds_low [of 7 c] by simp
  then show ?thesis
    by (simp only: xor_byte_low crc_update_def hexByte_def)
qed

lemma hexBytes_unfold:
  "s \<noteq> [] \<Longrightarrow> hexBytes s = hexByte (take 2 s) # hexBytes (drop 2 s)"
proof (cases s)
  case Nil
  then show "s \<noteq> [] \<Longrightarrow> ?thesis" by simp
next
  case (Cons c t)
  then show ?thesis by (cases t) simp_all
qed

lemma crc16ccitt_loop_spec:
  fixes r :: "16 word"
  shows "crc16ccitt_loop hex i (ucast r) = ucast (foldl crc_update r (hexBytes (drop i hex)))"
proof (induction "length hex - i" arbitrary: i r rule: less_induct)
  case less
  show ?case
  proof (cases "i < length hex")
    case False
    then show ?thesis by simp
  next
    case True
    then have ne: "drop i hex \<noteq> []" by simp
    have "length hex - (i + 2) < length hex - i"
      using True by simp
    from less [OF this]
    have IH: "crc16ccitt_loop hex (i + 2) (ucast r') = ucast (foldl crc_update r' (hexBytes (drop (i + 2) hex)))" for r'
      by simp
    have "crc16ccitt_loop hex i (ucast r) =
          crc16ccitt_loop hex (i + 2) (crc_rounds 8 (ucast r XOR push_bit 8 (toInt32 (parseInt (substr hex i 2) 16))))"
      using True by (subst crc16ccitt_loop.simps) (simp add: Let_def)
    also have "\<dots> = ucast (foldl crc_update (crc_update r (hexByte (substr hex i 2))) (hexBytes (drop (i + 2) hex)))"
      by (simp only: crc_byte_step IH)
    also have "foldl crc_update (crc_update r (hexByte (substr hex i 2))) (hexBytes (drop (i + 2) hex))
        = foldl crc_update r (hexBytes (drop i hex))"
      by (simp add: hexBytes_unfold [OF ne] substr_def add.commute)
    finally show ?thesis .
  qed
qed

lemma sint_ucast_16_32:
  fixes r :: "16 word"
  shows "sint (ucast r :: 32 word) = int (unat r)"
proof -
  have "uint r < 2 ^ 16"
    using uint_bounded [of r] by simp
  then have b: "uint r < 2 ^ 31"
    by simp
  have "uint r < 2 ^ 32"
    using b by simp
  then have "take_bit 32 (uint r) = uint r"
    by (intro take_bit_int_eq_self) simp_all
  then have "uint (ucast r :: 32 word) = uint r"
    by (simp add: unsigned_ucast_eq)
  then have "sint (ucast r :: 32 word) = signed_take_bit 31 (uint r)"
    by (simp add: sint_uint)
  also have "\<dots> = uint r"
  proof (rule signed_take_bit_int_eq_self)
    have "- (2 ^ 31) \<le> (0::int)" by simp
    also have "(0::int) \<le> uint r" by simp
    finally show "- (2 ^ 31) \<le> uint r" .
    show "uint r < 2 ^ 31" by (rule b)
  qed
  finally show ?thesis by simp
qed

lemma digits16_small: "n < 16 \<Longrightarrow> digits16 n = [hexDigit n]"
  by (subst digits16.simps) simp

lemma digits16_step: "16 \<le> n \<Longrightarrow> digits16 n = digits16 (n div 16) @ [hexDigit (n mod 16)]"
  by (subst digits16.simps) simp

lemma hexDigit_0: "hexDigit 0 = CHR ''0''"
  by (simp add: hexDigit_def)

lemma replicate_zeros:
  "replicate 3 c = [c, c, c]" "replicate 2 c = [c, c]"
  by (simp_all add: eval_nat_numeral)

lemma padStart_digits16:
  assumes "n < 65536"
  shows "padStart (digits16 n) 4 (CHR ''0'') =
           [hexDigit (n div 4096 mod 16), hexDigit (n div 256 mod 16), hexDigit (n div 16 mod 16), hexDigit (n mod 16)]"
proof -
  have d2: "n div 16 div 16 = n div 256" and d3: "n div 16 div 16 div 16 = n div 4096"
    by (simp_all add: div_mult2_eq [symmetric])
  consider "n < 16" | "16 \<le> n" "n < 256" | "256 \<le> n" "n < 4096" | "4096 \<le> n"
    by linarith
  then show ?thesis
  proof cases
    case 1
    then have "digits16 n = [hexDigit n]"
      by (rule digits16_small)
    moreover have "n div 4096 = 0" "n div 256 = 0" "n div 16 = 0" "n mod 16 = n"
      using 1 by simp_all
    ultimately show ?thesis
      by (simp add: padStart_def hexDigit_0 replicate_zeros)
  next
    case 2
    then have "n div 16 < 16" by simp
    then have "digits16 n = [hexDigit (n div 16), hexDigit (n mod 16)]"
      using 2 by (simp add: digits16_step digits16_small)
    moreover have "n div 4096 = 0" "n div 256 = 0" "n div 16 mod 16 = n div 16"
      using 2 by simp_all
    ultimately show ?thesis
      by (simp add: padStart_def hexDigit_0 replicate_zeros)
  next
    case 3
    then have a: "16 \<le> n" "16 \<le> n div 16" "n div 256 < 16"
      by simp_all
    then have "digits16 (n div 16) = [hexDigit (n div 256), hexDigit (n div 16 mod 16)]"
      by (simp add: digits16_step digits16_small d2)
    then have "digits16 n = [hexDigit (n div 256), hexDigit (n div 16 mod 16), hexDigit (n mod 16)]"
      using a by (simp add: digits16_step)
    moreover have "n div 4096 = 0" "n div 256 mod 16 = n div 256"
      using 3 a by simp_all
    ultimately show ?thesis
      by (simp add: padStart_def hexDigit_0 replicate_zeros)
  next
    case 4
    then have a: "16 \<le> n" "16 \<le> n div 16" "16 \<le> n div 256" "n div 4096 < 16"
      using assms by simp_all
    then have "digits16 (n div 256) = [hexDigit (n div 4096), hexDigit (n div 256 mod 16)]"
      using digits16_step [of "n div 256"] digits16_small [of "n div 4096"]
      by (simp add: div_mult2_eq [symmetric])
    then have "digits16 (n div 16) = [hexDigit (n div 4096), hexDigit (n div 256 mod 16), hexDigit (n div 16 mod 16)]"
      using a digits16_step [of "n div 16"] by (simp add: d2)
    then have "digits16 n = [hexDigit (n div 4096), hexDigit (n div 256 mod 16), hexDigit (n div 16 mod 16), hexDigit (n mod 16)]"
      using a by (simp add: digits16_step)
    moreover have "n div 4096 mod 16 = n div 4096"
      using a by simp
    ultimately show ?thesis
      by (simp add: padStart_def replicate_zeros)
  qed
qed

lemma toUpper_hexDigit:
  assumes "d < 16"
  shows "toUpper (hexDigit d) = ''0123456789ABCDEF'' ! d"
proof -
  have "list_all (\<lambda>d. toUpper (hexDigit d) = ''0123456789ABCDEF'' ! d) [0..<16]"
    by code_simp
  with assms show ?thesis
    by (simp add: list_all_iff)
qed

lemma render_crc:
  fixes r :: "16 word"
  shows "toUpperCase (padStart (toString16 (sint (ucast r :: 32 word))) 4 (CHR ''0'')) = hex4 r"
proof -
  have n: "unat r < 65536"
    using unsigned_less [of r, where 'a = nat] by simp
  have "toString16 (sint (ucast r :: 32 word)) = digits16 (unat r)"
    by (simp add: sint_ucast_16_32 toString16_def)
  then show ?thesis
    by (simp add: padStart_digits16 [OF n] toUpperCase_def hex4_def toUpper_hexDigit)
qed

lemma crc16ccitt_spec:
  "toUpperCase (crc16ccitt hex) = hex4 (crc16_ccitt_false (hexBytes hex))"
proof -
  have "crc16ccitt_loop hex 0 0xFFFF = crc16ccitt_loop hex 0 (ucast (0xFFFF :: 16 word))"
    by simp
  also have "\<dots> = ucast (crc16_ccitt_false (hexBytes hex))"
    by (simp only: crc16ccitt_loop_spec crc16_ccitt_false_def drop_0)
  finally show ?thesis
    by (simp only: crc16ccitt_def render_crc)
qed

lemma indexOf_first:
  assumes "take (length t) (drop k s) = t" and "\<forall>j<k. take (length t) (drop j s) \<noteq> t"
  shows "indexOf s t = int k"
  using assms
proof (induction s arbitrary: k)
  case Nil
  then have "t = []" by simp
  with Nil have "k = 0" by auto
  with \<open>t = []\<close> show ?case by simp
next
  case (Cons c r)
  show ?case
  proof (cases k)
    case 0
    with Cons.prems show ?thesis by simp
  next
    case (Suc k')
    with Cons.prems(2) have n0: "take (length t) (c # r) \<noteq> t"
      by (metis drop0 zero_less_Suc)
    have "take (length t) (drop k' r) = t"
      using Cons.prems(1) Suc by simp
    moreover have "\<forall>j<k'. take (length t) (drop j r) \<noteq> t"
      using Cons.prems(2) Suc by (metis Suc_less_eq drop_Suc_Cons)
    ultimately have "indexOf r t = int k'"
      by (rule Cons.IH)
    with n0 Suc show ?thesis by (simp add: Let_def)
  qed
qed

lemma verifyCRC_found:
  assumes "take 4 (drop k payload) = ''6304''" and "\<forall>j<k. take 4 (drop j payload) \<noteq> ''6304''"
  shows "verifyCRC payload =
           \<lparr>ok = (hex4 (crc16_ccitt_false (hexBytes (take (k + 4) payload)))
                   = toUpperCase (take 4 (drop (k + 4) payload))),
            expected = Some (hex4 (crc16_ccitt_false (hexBytes (take (k + 4) payload)))),
            actual = Some (toUpperCase (take 4 (drop (k + 4) payload)))\<rparr>"
proof -
  have l4: "length ''6304'' = 4"
    by simp
  have i: "indexOf payload ''6304'' = int k"
    using assms indexOf_first [of "''6304''" k payload] unfolding l4 by blast
  have d: "slice_str payload (Num 0) (Num (int k + 4)) = take (k + 4) payload"
    using slice_str_nonneg [of payload 0 "k + 4"] by (simp add: add.commute)
  have a: "slice_str payload (Num (int k + 4)) (Num (int k + 8)) = take 4 (drop (k + 4) payload)"
    using slice_str_nonneg [of payload "k + 4" "k + 8"] by (simp add: add.commute)
  show ?thesis
    unfolding verifyCRC_def i Let_def d a crc16ccitt_spec by simp
qed

lemma isHexChar_facts:
  assumes "isHexChar c"
  shows "\<not> isWhiteSpace c" "c \<noteq> CHR ''+''" "c \<noteq> CHR ''-''" "c \<noteq> CHR ''x''" "c \<noteq> CHR ''X''"
    "isRadixDigit 16 c" "\<exists>v<16. digitValue c = Some v"
proof -
  let ?k = "of_char c :: nat"
  have r: "(48 \<le> ?k \<and> ?k \<le> 57) \<or> (65 \<le> ?k \<and> ?k \<le> 70) \<or> (97 \<le> ?k \<and> ?k \<le> 102)"
    using assms by (simp add: isHexChar_def Let_def)
  have ne: "c \<noteq> d" if "?k \<noteq> of_char d" for d
    using that by auto
  have "isWhiteSpace c \<longleftrightarrow> ?k \<in> {9, 10, 11, 12, 13, 32}"
    unfolding isWhiteSpace_def by (cases c) (simp add: eval_nat_numeral)
  with r show "\<not> isWhiteSpace c" by auto
  show "c \<noteq> CHR ''+''" "c \<noteq> CHR ''-''" "c \<noteq> CHR ''x''" "c \<noteq> CHR ''X''"
    using r by (auto intro!: ne)
  show v: "\<exists>v<16. digitValue c = Some v"
    using r by (auto simp: digitValue_def Let_def)
  then show "isRadixDigit 16 c"
    by (auto simp: isRadixDigit_def)
qed

lemma ucast_of_nat_32_8: "(ucast (word_of_nat n :: 32 word) :: 8 word) = word_of_nat n"
  by (rule bit_word_eqI) (auto simp: bit_simps)

lemma hexByte_Num: "parseInt chunk 16 = Num (int n) \<Longrightarrow> hexByte chunk = word_of_nat n"
  unfolding hexByte_def by (simp add: ucast_of_nat_32_8)

lemma hexByte_pair:
  assumes "isHexChar c" and "isHexChar d"
  shows "hexByte [c, d] = word_of_nat (16 * the (digitValue c) + the (digitValue d))"
proof -
  note fc = isHexChar_facts [OF assms(1)] and fd = isHexChar_facts [OF assms(2)]
  have "parseInt [c, d] 16 = Num (int (16 * the (digitValue c) + the (digitValue d)))"
    using fc(1-3,6) fd(4-6) by (simp add: parseInt_def Let_def digitsValue_def)
  then show ?thesis
    by (rule hexByte_Num)
qed

lemma hexByte_single:
  assumes "isHexChar c"
  shows "hexByte [c] = word_of_nat (the (digitValue c))"
proof -
  note fc = isHexChar_facts [OF assms(1)]
  have "parseInt [c] 16 = Num (int (the (digitValue c)))"
    using fc(1-3,6) by (simp add: parseInt_def Let_def digitsValue_def)
  then show ?thesis
    by (rule hexByte_Num)
qed

lemma hexValue_the: "isHexChar c \<Longrightarrow> hexValue c = the (digitValue c)"
  using isHexChar_facts(7) [of c] by (auto simp: hexValue_def)

lemma hexBytes_hex: "list_all isHexChar s \<Longrightarrow> hexBytes s = hexDecode s"
  by (induction s rule: hexBytes.induct) (simp_all add: hexByte_pair hexByte_single hexValue_the)

section \<open>A changed byte changes the checksum\<close>

lemma xor_cancel_right:
  fixes a b c :: "'a::len word"
  assumes "a XOR c = b XOR c"
  shows "a = b"
proof -
  have "(a XOR c) XOR c = (b XOR c) XOR c"
    by (simp only: assms)
  then show ?thesis
    by (simp add: xor.assoc)
qed

lemma xor_cancel_left:
  fixes a b c :: "'a::len word"
  assumes "c XOR a = c XOR b"
  shows "a = b"
  using assms xor_cancel_right [of a c b] by (simp add: xor.commute)

lemma bit0_push_bit_Suc:
  fixes r k :: "16 word"
  shows "bit (push_bit (Suc m) r XOR k) 0 \<longleftrightarrow> bit k 0" and "\<not> bit (push_bit (Suc m) r) 0"
proof -
  show z: "\<not> bit (push_bit (Suc m) r) 0"
    by (subst bit_push_bit_iff) simp
  show "bit (push_bit (Suc m) r XOR k) 0 \<longleftrightarrow> bit k 0"
    by (subst bit_xor_iff) (simp only: z simp_thms)
qed

lemma crc_shift_bit0: "bit (crc_shift r) 0 \<longleftrightarrow> bit r 15"
proof -
  have k: "bit (0x1021 :: 16 word) 0"
    by (simp add: bit_0)
  have one: "(1::nat) = Suc 0"
    by simp
  show ?thesis
    unfolding crc_shift_def one
    by (cases "bit r 15") (simp_all only: if_True if_False bit0_push_bit_Suc k simp_thms)
qed

lemma push_bit_1_inj_low:
  fixes a b :: "16 word"
  assumes "push_bit m a = push_bit m b" and "n + m < 16"
  shows "bit a n \<longleftrightarrow> bit b n"
proof -
  have "bit (push_bit m a) (n + m) \<longleftrightarrow> bit (push_bit m b) (n + m)"
    by (simp only: assms(1))
  then show ?thesis
    using assms(2) by (simp add: bit_simps)
qed

lemma crc_shift_inj: "crc_shift a = crc_shift b \<Longrightarrow> a = b"
proof -
  assume e: "crc_shift a = crc_shift b"
  then have t: "bit a 15 \<longleftrightarrow> bit b 15"
    using crc_shift_bit0 by metis
  have p: "push_bit 1 a = push_bit 1 b"
  proof (cases "bit a 15")
    case True
    with t e have "push_bit 1 a XOR 0x1021 = push_bit 1 b XOR (0x1021 :: 16 word)"
      by (simp only: crc_shift_def if_True)
    then show ?thesis
      by (rule xor_cancel_right)
  next
    case False
    with t e show ?thesis
      by (simp only: crc_shift_def if_False)
  qed
  show "a = b"
  proof (rule bit_word_eqI)
    fix n
    assume "n < LENGTH(16)"
    then have n: "n < 16" by simp
    show "bit a n \<longleftrightarrow> bit b n"
    proof (cases "n = 15")
      case True
      with t show ?thesis by simp
    next
      case False
      with n have "n + 1 < 16" by simp
      with p show ?thesis by (rule push_bit_1_inj_low)
    qed
  qed
qed

lemma crc_shift_funpow_inj: "(crc_shift ^^ n) a = (crc_shift ^^ n) b \<Longrightarrow> a = b"
  by (induction n) (auto dest: crc_shift_inj)

lemma crc_update_inj_state: "crc_update a x = crc_update b x \<Longrightarrow> a = b"
  unfolding crc_update_def
  by (drule crc_shift_funpow_inj) (rule xor_cancel_right)

lemma push_bit_8_ucast_inj:
  fixes x y :: "8 word"
  assumes "(push_bit 8 (ucast x) :: 16 word) = push_bit 8 (ucast y)"
  shows "x = y"
proof (rule bit_word_eqI)
  fix n
  assume "n < LENGTH(8)"
  then have n: "n < 8" by simp
  have "bit (push_bit 8 (ucast x) :: 16 word) (n + 8) \<longleftrightarrow> bit (push_bit 8 (ucast y) :: 16 word) (n + 8)"
    by (simp only: assms)
  then show "bit x n \<longleftrightarrow> bit y n"
    using n by (simp add: bit_simps)
qed

lemma crc_update_inj_byte: "crc_update r x = crc_update r y \<Longrightarrow> x = y"
  unfolding crc_update_def
  by (drule crc_shift_funpow_inj, drule xor_cancel_left) (rule push_bit_8_ucast_inj)

lemma foldl_crc_update_inj: "foldl crc_update a bs = foldl crc_update b bs \<Longrightarrow> a = b"
  by (induction bs arbitrary: a b) (auto dest: crc_update_inj_state)

lemma crc_one_byte_changed:
  assumes "foldl crc_update r (A @ x # B) = foldl crc_update r (A @ y # B)"
  shows "x = y"
proof -
  from assms have "foldl crc_update (crc_update (foldl crc_update r A) x) B
                 = foldl crc_update (crc_update (foldl crc_update r A) y) B"
    by simp
  then have "crc_update (foldl crc_update r A) x = crc_update (foldl crc_update r A) y"
    by (rule foldl_crc_update_inj)
  then show ?thesis
    by (rule crc_update_inj_byte)
qed

lemma div_mod_16_eq:
  fixes n m :: nat
  assumes "n div 16 = m div 16" and "n mod 16 = m mod 16"
  shows "n = m"
  using assms by (metis div_mult_mod_eq)

lemma hex4_inj:
  assumes "hex4 r = hex4 r'"
  shows "r = r'"
proof -
  let ?H = "\<lambda>d. ''0123456789ABCDEF'' ! d"
  let ?n = "unat r" and ?m = "unat r'"
  have inj: "?H i = ?H j \<Longrightarrow> i = j" if "i < 16" "j < 16" for i j :: nat
    using that nth_eq_iff_index_eq [of "''0123456789ABCDEF''" i j] by simp
  have n: "?n < 65536" "?m < 65536"
    using unsigned_less [of r, where 'a = nat] unsigned_less [of r', where 'a = nat] by simp_all
  from assms have
    "?H (?n div 4096 mod 16) = ?H (?m div 4096 mod 16)"
    "?H (?n div 256 mod 16) = ?H (?m div 256 mod 16)"
    "?H (?n div 16 mod 16) = ?H (?m div 16 mod 16)"
    "?H (?n mod 16) = ?H (?m mod 16)"
    by (simp_all add: hex4_def)
  then have d: "?n div 4096 mod 16 = ?m div 4096 mod 16"
    "?n div 256 mod 16 = ?m div 256 mod 16"
    "?n div 16 mod 16 = ?m div 16 mod 16"
    "?n mod 16 = ?m mod 16"
    by (simp_all add: inj)
  have "?n div 4096 < 16" "?m div 4096 < 16"
    using n by simp_all
  with d(1) have "?n div 4096 = ?m div 4096"
    by simp
  then have "?n div 256 div 16 = ?m div 256 div 16"
    by (simp add: div_mult2_eq [symmetric])
  then have "?n div 256 = ?m div 256"
    using d(2) by (rule div_mod_16_eq)
  then have "?n div 16 div 16 = ?m div 16 div 16"
    by (simp add: div_mult2_eq [symmetric])
  then have "?n div 16 = ?m div 16"
    using d(3) by (rule div_mod_16_eq)
  then have "?n = ?m"
    using d(4) by (rule div_mod_16_eq)
  then show ?thesis
    by (rule word_unat_eq_iff [THEN iffD2])
qed

lemma hexBytes_append_even:
  "even (length A) \<Longrightarrow> hexBytes (A @ B) = hexBytes A @ hexBytes B"
  by (induction A rule: hexBytes.induct) simp_all

lemma hexBytes_chunk:
  assumes "2 * q + 2 \<le> length s"
  shows "hexBytes s = hexBytes (take (2 * q) s) @ hexByte (take 2 (drop (2 * q) s)) # hexBytes (drop (2 * q + 2) s)"
proof -
  have s: "s = take (2 * q) s @ drop (2 * q) s"
    by simp
  have e: "even (length (take (2 * q) s))"
    using assms by simp
  have ne: "drop (2 * q) s \<noteq> []"
    using assms by simp
  have "hexBytes s = hexBytes (take (2 * q) s) @ hexBytes (drop (2 * q) s)"
    using hexBytes_append_even [OF e, of "drop (2 * q) s"] by simp
  then show ?thesis
    by (simp add: hexBytes_unfold [OF ne] add.commute)
qed

lemma word8_of_nat_inj:
  assumes "m < 256" and "n < 256" and "(word_of_nat m :: 8 word) = word_of_nat n"
  shows "m = n"
proof -
  have "take_bit 8 m = take_bit 8 n"
    using assms(3) by (simp add: word_of_nat_eq_iff)
  moreover have "take_bit 8 m = m" "take_bit 8 n = n"
    using assms(1,2) by (simp_all add: take_bit_nat_eq_self)
  ultimately show ?thesis by simp
qed

lemma hexByte_pair_differs:
  assumes "isHexChar x" and "isHexChar y" and "isHexChar x'" and "isHexChar y'"
    and "digitValue x \<noteq> digitValue x' \<and> y = y' \<or> x = x' \<and> digitValue y \<noteq> digitValue y'"
  shows "hexByte [x, y] \<noteq> hexByte [x', y']"
proof
  assume e: "hexByte [x, y] = hexByte [x', y']"
  obtain a where va: "digitValue x = Some a" "a < 16"
    using isHexChar_facts(7) [OF assms(1)] by blast
  obtain b where vb: "digitValue y = Some b" "b < 16"
    using isHexChar_facts(7) [OF assms(2)] by blast
  obtain a' where va': "digitValue x' = Some a'" "a' < 16"
    using isHexChar_facts(7) [OF assms(3)] by blast
  obtain b' where vb': "digitValue y' = Some b'" "b' < 16"
    using isHexChar_facts(7) [OF assms(4)] by blast
  note v = va vb va' vb'
  have "(word_of_nat (16 * a + b) :: 8 word) = word_of_nat (16 * a' + b')"
    using e by (simp add: hexByte_pair assms(1-4) v)
  moreover have "16 * a + b < 256" "16 * a' + b' < 256"
    using v by simp_all
  ultimately have "16 * a + b = 16 * a' + b'"
    using word8_of_nat_inj by blast
  then have "(16 * a + b) div 16 = (16 * a' + b') div 16" "(16 * a + b) mod 16 = (16 * a' + b') mod 16"
    by simp_all
  then have "a = a' \<and> b = b'"
    using v by simp
  with assms(5) v show False
    by auto
qed

lemma take2_drop:
  "i + 2 \<le> length s \<Longrightarrow> take 2 (drop i s) = [s ! i, s ! (i + 1)]"
  by (simp add: take_Suc_conv_app_nth numeral_2_eq_2)

lemma marker_length:
  assumes "take 4 (drop k s) = ''6304''"
  shows "k + 4 \<le> length s"
proof -
  have "length (take 4 (drop k s)) = 4"
    by (simp only: assms) simp
  then show ?thesis by simp
qed

lemma verifyCRC_sensitive_aux:
  assumes first: "take 4 (drop k payload) = ''6304''" "\<forall>j<k. take 4 (drop j payload) \<noteq> ''6304''"
    and p: "p < k"
    and hex: "isHexChar (payload ! (2 * (p div 2)))" "isHexChar (payload ! (2 * (p div 2) + 1))" "isHexChar c"
    and diff: "digitValue c \<noteq> digitValue (payload ! p)"
    and first': "\<forall>j<k. take 4 (drop j (payload[p := c])) \<noteq> ''6304''"
  shows "expected (verifyCRC (payload[p := c])) \<noteq> expected (verifyCRC payload)"
    and "actual (verifyCRC (payload[p := c])) = actual (verifyCRC payload)"
proof -
  let ?q = "p div 2"
  let ?payload' = "payload[p := c]"
  let ?data = "take (k + 4) payload" and ?data' = "take (k + 4) ?payload'"
  have len: "k + 4 \<le> length payload"
    using first(1) by (rule marker_length)
  have q: "2 * ?q \<le> p" "p < 2 * ?q + 2" "2 * ?q + 2 \<le> length ?data"
    using p len by simp_all
  have marker': "take 4 (drop k ?payload') = ''6304''"
    using first(1) p by (simp add: drop_update_cancel)
  have v: "verifyCRC payload =
           \<lparr>ok = (hex4 (crc16_ccitt_false (hexBytes ?data)) = toUpperCase (take 4 (drop (k + 4) payload))),
            expected = Some (hex4 (crc16_ccitt_false (hexBytes ?data))),
            actual = Some (toUpperCase (take 4 (drop (k + 4) payload)))\<rparr>"
    using first by (rule verifyCRC_found)
  have v': "verifyCRC ?payload' =
           \<lparr>ok = (hex4 (crc16_ccitt_false (hexBytes ?data')) = toUpperCase (take 4 (drop (k + 4) ?payload'))),
            expected = Some (hex4 (crc16_ccitt_false (hexBytes ?data'))),
            actual = Some (toUpperCase (take 4 (drop (k + 4) ?payload')))\<rparr>"
    using marker' first' by (rule verifyCRC_found)
  have tail: "drop (k + 4) ?payload' = drop (k + 4) payload"
    using p by (simp add: drop_update_cancel)
  show "actual (verifyCRC ?payload') = actual (verifyCRC payload)"
    by (simp add: v v' tail)
  have data': "?data' = ?data[p := c]"
    by (simp add: take_update_swap)
  have A: "take (2 * ?q) ?data' = take (2 * ?q) ?data"
    unfolding data' using q by (simp add: take_update_cancel)
  have B: "drop (2 * ?q + 2) ?data' = drop (2 * ?q + 2) ?data"
    unfolding data' using q by (simp add: drop_update_cancel)
  have l': "2 * ?q + 2 \<le> length ?data'"
    using q(3) by simp
  let ?x = "payload ! (2 * ?q)" and ?y = "payload ! (2 * ?q + 1)"
  have nth: "?data ! (2 * ?q) = ?x" "?data ! (2 * ?q + 1) = ?y"
    using q len p by simp_all
  have C: "take 2 (drop (2 * ?q) ?data) = [?x, ?y]"
    using take2_drop [OF q(3)] nth by simp
  have pc: "p = 2 * ?q \<or> p = 2 * ?q + 1"
    using q by linarith
  have pl: "p < length ?data"
    using p len by simp
  have C': "take 2 (drop (2 * ?q) ?data') = (if p = 2 * ?q then [c, ?y] else [?x, c])"
    using take2_drop [OF l'] pc pl nth unfolding data'
    by (auto simp: nth_list_update)
  have ne: "hexByte (take 2 (drop (2 * ?q) ?data)) \<noteq> hexByte (take 2 (drop (2 * ?q) ?data'))"
  proof (cases "p = 2 * ?q")
    case True
    then have "digitValue ?x \<noteq> digitValue c"
      using diff by metis
    then show ?thesis
      unfolding C C' using True hex by (simp add: hexByte_pair_differs)
  next
    case False
    with pc have "p = 2 * ?q + 1" by simp
    then have "digitValue ?y \<noteq> digitValue c"
      using diff by metis
    then show ?thesis
      unfolding C C' using False hex by (simp add: hexByte_pair_differs)
  qed
  have "crc16_ccitt_false (hexBytes ?data) \<noteq> crc16_ccitt_false (hexBytes ?data')"
    unfolding crc16_ccitt_false_def hexBytes_chunk [OF q(3)] hexBytes_chunk [OF l'] A B
    using ne crc_one_byte_changed by blast
  then have "hex4 (crc16_ccitt_false (hexBytes ?data')) \<noteq> hex4 (crc16_ccitt_false (hexBytes ?data))"
    using hex4_inj by metis
  then show "expected (verifyCRC ?payload') \<noteq> expected (verifyCRC payload)"
    by (simp add: v v')
qed

section \<open>Evaluated payloads\<close>

text \<open>The checksum check on the concrete payloads used in the instances below.\<close>

lemma verifyCRC_eval:
  assumes "indexOf p ''6304'' = int k"
    and "crc16ccitt_loop (take (k + 4) p) 0 0xFFFF = w"
    and "padStart (toString16 (sint w)) 4 (CHR ''0'') = h"
    and "toUpperCase h = e"
    and "toUpperCase (take 4 (drop (k + 4) p)) = a"
  shows "verifyCRC p = \<lparr>ok = (e = a), expected = Some e, actual = Some a\<rparr>"
proof -
  have d: "slice_str p (Num 0) (Num (int k + 4)) = take (k + 4) p"
    using slice_str_nonneg [of p 0 "k + 4"] by (simp add: add.commute)
  have s: "slice_str p (Num (int k + 4)) (Num (int k + 8)) = take 4 (drop (k + 4) p)"
    using slice_str_nonneg [of p "k + 4" "k + 8"] by (simp add: add.commute)
  have "crc16ccitt (take (k + 4) p) = h"
    by (simp only: crc16ccitt_def assms(2,3))
  then show ?thesis
    unfolding verifyCRC_def assms(1) Let_def d s by (simp add: assms(4,5))
qed

lemma verifyCRC_0002016304D5A9:
  "verifyCRC ''0002016304D5A9'' = \<lparr>ok = True, expected = Some ''D5A9'', actual = Some ''D5A9''\<rparr>"
proof -
  have "verifyCRC ''0002016304D5A9'' =
          \<lparr>ok = (''D5A9'' = ''D5A9''), expected = Some ''D5A9'', actual = Some ''D5A9''\<rparr>"
  proof (rule verifyCRC_eval [where k = 6 and w = 54697 and h = "''d5a9''"])
    show "indexOf ''0002016304D5A9'' ''6304'' = int 6"
      by code_simp
    show "crc16ccitt_loop (take (6 + 4) ''0002016304D5A9'') 0 0xFFFF = 54697"
      by code_simp
    show "padStart (toString16 (sint (54697 :: 32 word))) 4 (CHR ''0'') = ''d5a9''"
      by (simp add: toString16_def padStart_def hexDigit_def digits16.simps)
    show "toUpperCase ''d5a9'' = ''D5A9''"
      by code_simp
    show "toUpperCase (take 4 (drop (6 + 4) ''0002016304D5A9'')) = ''D5A9''"
      by code_simp
  qed
  then show ?thesis
    by simp
qed


lemma verifyCRC_0002026304D5A9:
  "verifyCRC ''0002026304D5A9'' = \<lparr>ok = False, expected = Some ''8CF9'', actual = Some ''D5A9''\<rparr>"
proof -
  have "verifyCRC ''0002026304D5A9'' =
          \<lparr>ok = (''8CF9'' = ''D5A9''), expected = Some ''8CF9'', actual = Some ''D5A9''\<rparr>"
  proof (rule verifyCRC_eval [where k = 6 and w = 36089 and h = "''8cf9''"])
    show "indexOf ''0002026304D5A9'' ''6304'' = int 6"
      by code_simp
    show "crc16ccitt_loop (take (6 + 4) ''0002026304D5A9'') 0 0xFFFF = 36089"
      by code_simp
    show "padStart (toString16 (sint (36089 :: 32 word))) 4 (CHR ''0'') = ''8cf9''"
      by (simp add: toString16_def padStart_def hexDigit_def digits16.simps)
    show "toUpperCase ''8cf9'' = ''8CF9''"
      by code_simp
    show "toUpperCase (take 4 (drop (6 + 4) ''0002026304D5A9'')) = ''D5A9''"
      by code_simp
  qed
  then show ?thesis
    by simp
qed

lemma verifyCRC_530403F263043171:
  "verifyCRC ''530403F263043171'' = \<lparr>ok = True, expected = Some ''3171'', actual = Some ''3171''\<rparr>"
proof -
  have "verifyCRC ''530403F263043171'' =
          \<lparr>ok = (''3171'' = ''3171''), expected = Some ''3171'', actual = Some ''3171''\<rparr>"
  proof (rule verifyCRC_eval [where k = 8 and w = 12657 and h = "''3171''"])
    show "indexOf ''530403F263043171'' ''6304'' = int 8"
      by code_simp
    show "crc16ccitt_loop (take (8 + 4) ''530403F263043171'') 0 0xFFFF = 12657"
      by code_simp
    show "padStart (toString16 (sint (12657 :: 32 word))) 4 (CHR ''0'') = ''3171''"
      by (simp add: toString16_def padStart_def hexDigit_def digits16.simps)
    show "toUpperCase ''3171'' = ''3171''"
      by code_simp
    show "toUpperCase (take 4 (drop (8 + 4) ''530403F263043171'')) = ''3171''"
      by code_simp
  qed
  then show ?thesis
    by simp
qed

lemma verifyCRC_630403F263043171:
  "verifyCRC ''630403F263043171'' = \<lparr>ok = True, expected = Some ''03F2'', actual = Some ''03F2''\<rparr>"
proof -
  have "verifyCRC ''630403F263043171'' =
          \<lparr>ok = (''03F2'' = ''03F2''), expected = Some ''03F2'', actual = Some ''03F2''\<rparr>"
  proof (rule verifyCRC_eval [where k = 0 and w = 1010 and h = "''03f2''"])
    show "indexOf ''630403F263043171'' ''6304'' = int 0"
      by code_simp
    show "crc16ccitt_loop (take (0 + 4) ''630403F263043171'') 0 0xFFFF = 1010"
      by code_simp
    show "padStart (toString16 (sint (1010 :: 32 word))) 4 (CHR ''0'') = ''03f2''"
      by (simp add: toString16_def padStart_def hexDigit_def digits16.simps)
    show "toUpperCase ''03f2'' = ''03F2''"
      by code_simp
    show "toUpperCase (take 4 (drop (0 + 4) ''630403F263043171'')) = ''03F2''"
      by code_simp
  qed
  then show ?thesis
    by simp
qed

lemma verifyCRC_0002a163046835:
  "verifyCRC ''0002a163046835'' = \<lparr>ok = True, expected = Some ''6835'', actual = Some ''6835''\<rparr>"
proof -
  have "verifyCRC ''0002a163046835'' =
          \<lparr>ok = (''6835'' = ''6835''), expected = Some ''6835'', actual = Some ''6835''\<rparr>"
  proof (rule verifyCRC_eval [where k = 6 and w = 26677 and h = "''6835''"])
    show "indexOf ''0002a163046835'' ''6304'' = int 6"
      by code_simp
    show "crc16ccitt_loop (take (6 + 4) ''0002a163046835'') 0 0xFFFF = 26677"
      by code_simp
    show "padStart (toString16 (sint (26677 :: 32 word))) 4 (CHR ''0'') = ''6835''"
      by (simp add: toString16_def padStart_def hexDigit_def digits16.simps)
    show "toUpperCase ''6835'' = ''6835''"
      by code_simp
    show "toUpperCase (take 4 (drop (6 + 4) ''0002a163046835'')) = ''6835''"
      by code_simp
  qed
  then show ?thesis
    by simp
qed

lemma verifyCRC_0002A163046835:
  "verifyCRC ''0002A163046835'' = \<lparr>ok = True, expected = Some ''6835'', actual = Some ''6835''\<rparr>"
proof -
  have "verifyCRC ''0002A163046835'' =
          \<lparr>ok = (''6835'' = ''6835''), expected = Some ''6835'', actual = Some ''6835''\<rparr>"
  proof (rule verifyCRC_eval [where k = 6 and w = 26677 and h = "''6835''"])
    show "indexOf ''0002A163046835'' ''6304'' = int 6"
      by code_simp
    show "crc16ccitt_loop (take (6 + 4) ''0002A163046835'') 0 0xFFFF = 26677"
      by code_simp
    show "padStart (toString16 (sint (26677 :: 32 word))) 4 (CHR ''0'') = ''6835''"
      by (simp add: toString16_def padStart_def hexDigit_def digits16.simps)
    show "toUpperCase ''6835'' = ''6835''"
      by code_simp
    show "toUpperCase (take 4 (drop (6 + 4) ''0002A163046835'')) = ''6835''"
      by code_simp
  qed
  then show ?thesis
    by simp
qed

lemma verifyCRC_zA6304D261:
  "verifyCRC ''zA6304D261'' = \<lparr>ok = True, expected = Some ''D261'', actual = Some ''D261''\<rparr>"
proof -
  have "verifyCRC ''zA6304D261'' =
          \<lparr>ok = (''D261'' = ''D261''), expected = Some ''D261'', actual = Some ''D261''\<rparr>"
  proof (rule verifyCRC_eval [where k = 2 and w = 53857 and h = "''d261''"])
    show "indexOf ''zA6304D261'' ''6304'' = int 2"
      by code_simp
    show "crc16ccitt_loop (take (2 + 4) ''zA6304D261'') 0 0xFFFF = 53857"
      by code_simp
    show "padStart (toString16 (sint (53857 :: 32 word))) 4 (CHR ''0'') = ''d261''"
      by (simp add: toString16_def padStart_def hexDigit_def digits16.simps)
    show "toUpperCase ''d261'' = ''D261''"
      by code_simp
    show "toUpperCase (take 4 (drop (2 + 4) ''zA6304D261'')) = ''D261''"
      by code_simp
  qed
  then show ?thesis
    by simp
qed

lemma verifyCRC_zB6304D261:
  "verifyCRC ''zB6304D261'' = \<lparr>ok = True, expected = Some ''D261'', actual = Some ''D261''\<rparr>"
proof -
  have "verifyCRC ''zB6304D261'' =
          \<lparr>ok = (''D261'' = ''D261''), expected = Some ''D261'', actual = Some ''D261''\<rparr>"
  proof (rule verifyCRC_eval [where k = 2 and w = 53857 and h = "''d261''"])
    show "indexOf ''zB6304D261'' ''6304'' = int 2"
      by code_simp
    show "crc16ccitt_loop (take (2 + 4) ''zB6304D261'') 0 0xFFFF = 53857"
      by code_simp
    show "padStart (toString16 (sint (53857 :: 32 word))) 4 (CHR ''0'') = ''d261''"
      by (simp add: toString16_def padStart_def hexDigit_def digits16.simps)
    show "toUpperCase ''d261'' = ''D261''"
      by code_simp
    show "toUpperCase (take 4 (drop (2 + 4) ''zB6304D261'')) = ''D261''"
      by code_simp
  qed
  then show ?thesis
    by simp
qed

text \<open>
  The catalogued check value of CRC-16/CCITT-FALSE: the checksum of the nine bytes of
  the ASCII text \<^verbatim>\<open>123456789\<close> is \<^verbatim>\<open>29B1\<close>.
\<close>

lemma crc16_ccitt_false_check_value:
  "hex4 (crc16_ccitt_false (hexDecode ''313233343536373839'')) = ''29B1''"
proof -
  have l: "crc16ccitt_loop ''313233343536373839'' 0 0xFFFF = 10673"
    by code_simp
  have "crc16ccitt ''313233343536373839'' = ''29b1''"
    unfolding crc16ccitt_def l
    by (simp add: toString16_def padStart_def hexDigit_def digits16.simps)
  moreover have "toUpperCase ''29b1'' = ''29B1''"
    by code_simp
  moreover have "list_all isHexChar ''313233343536373839''"
    by code_simp
  ultimately show ?thesis
    using crc16ccitt_spec [of "''313233343536373839''"] hexBytes_hex [of "''313233343536373839''"]
    by simp
qed

section \<open>Claims\<close>



text \<open>
  Claim C2, amended. With the shape check, the checksum, the amount and the currency
  passed and neither tag \<^verbatim>\<open>29\<close> nor tag \<^verbatim>\<open>26\<close> present, the verdict is
  \<^verbatim>\<open>VERIFIED_PRELIM\<close> when no receiver id is configured. With a receiver id
  configured, \<^verbatim>\<open>accountMatches\<close> is \<^verbatim>\<open>null\<close> and the verdict is \<^verbatim>\<open>REVIEW\<close>.
\<close>

theorem verifySlip_no_template:
  assumes "hexShape p" and "ok (verifyCRC p)" and "parseEMV p = Some tlv"
    and "amountMatches near tlv" and "currencyOK tlv"
    and "map_of tlv ''29'' = None" and "map_of tlv ''26'' = None"
  shows "verifySlip near e (Some p) =
           Some (if e = [] then \<lparr>slipStatus = VERIFIED_PRELIM, slipReason = None\<rparr>
                 else \<lparr>slipStatus = REVIEW,
                       slipReason = Some (reasonJSON True None True (currency tlv))\<rparr>)"
proof -
  have "p \<noteq> []"
    using assms(1) by (simp add: hexShape_def)
  moreover have "accountMatches e tlv = (if e = [] then Some True else None)"
    using assms(6,7) by (simp add: accountMatches_def merchant_def sub_of_def)
  ultimately show ?thesis
    using assms(1-5) by (simp add: verifySlip_def Let_def)
qed

text \<open>
  The claim as stated fails with a receiver id configured: the payload below passes
  every other check, has no template, and is sent to review.
\<close>

theorem verifySlip_no_template_counterexample:
  \<open>hexShape ''0002016304D5A9'' \<and> ok (verifyCRC ''0002016304D5A9'') \<and>
   parseEMV ''0002016304D5A9'' = Some [(''00'', Flat ''01''), (''63'', Flat ''D5A9'')] \<and>
   amountMatches (\<lambda>v. False) [(''00'', Flat ''01''), (''63'', Flat ''D5A9'')] \<and>
   currencyOK [(''00'', Flat ''01''), (''63'', Flat ''D5A9'')] \<and>
   map_of [(''00'', Flat ''01''), (''63'', Flat ''D5A9'')] ''29'' = None \<and>
   map_of [(''00'', Flat ''01''), (''63'', Flat ''D5A9'')] ''26'' = None \<and>
   verifySlip (\<lambda>v. False) ''0812345678'' (Some ''0002016304D5A9'') =
     Some \<lparr>slipStatus = REVIEW,
           slipReason = Some ''{"crc":true,"accountMatches":null,"amountMatches":true,"currency":""}''\<rparr>\<close>
proof -
  let ?tlv = "[(''00'', Flat ''01''), (''63'', Flat ''D5A9'')]"
  have a1: "hexShape ''0002016304D5A9''"
    by code_simp
  have a3: "ok (verifyCRC ''0002016304D5A9'')"
    by (simp add: verifyCRC_0002016304D5A9)
  have a4: "parseEMV ''0002016304D5A9'' = Some ?tlv"
    by code_simp
  have a5: "currencyOK ?tlv"
    by code_simp
  have a6: "amountMatches (\<lambda>v. False) ?tlv"
    by code_simp
  have a8: "accountMatches ''0812345678'' ?tlv = None"
    by code_simp
  have a9: "currency ?tlv = []"
    by code_simp
  have a10: \<open>reasonJSON True None True [] =
      ''{"crc":true,"accountMatches":null,"amountMatches":true,"currency":""}''\<close>
    by code_simp
  have a7: \<open>verifySlip (\<lambda>v. False) ''0812345678'' (Some ''0002016304D5A9'') =
     Some \<lparr>slipStatus = REVIEW,
           slipReason = Some ''{"crc":true,"accountMatches":null,"amountMatches":true,"currency":""}''\<rparr>\<close>
    unfolding verifySlip_def Let_def option.case a4 a8 a9
    by (simp only: a1 a3 a5 a6 a10 simp_thms if_True if_False list.simps option.distinct)
  from a1 a3 a4 a5 a6 a7 show ?thesis
    by simp
qed

text \<open>
  An instance without a configured receiver id.
\<close>

theorem verifySlip_no_template_witness:
  "verifySlip (\<lambda>v. False) [] (Some ''0002016304D5A9'') =
     Some \<lparr>slipStatus = VERIFIED_PRELIM, slipReason = None\<rparr>"
proof -
  let ?tlv = "[(''00'', Flat ''01''), (''63'', Flat ''D5A9'')]"
  have a1: "hexShape ''0002016304D5A9''"
    by code_simp
  have a3: "ok (verifyCRC ''0002016304D5A9'')"
    by (simp add: verifyCRC_0002016304D5A9)
  have a4: "parseEMV ''0002016304D5A9'' = Some ?tlv"
    by code_simp
  have a5: "currencyOK ?tlv"
    by code_simp
  have a6: "amountMatches (\<lambda>v. False) ?tlv"
    by code_simp
  have a7: "map_of ?tlv ''29'' = None" "map_of ?tlv ''26'' = None"
    by simp_all
  from verifySlip_no_template [OF a1 a3 a4 a6 a5 a7, of "[]"] show ?thesis
    by simp
qed



text \<open>
  Claim C4. For pairwise distinct two-character tags, none of them a template tag,
  each with a value of at most 99 characters, parsing the concatenation of the
  well-formed fields returns exactly those tags with those values.
\<close>

theorem parseEMV_flat_roundtrip:
  assumes "\<forall>f \<in> set fs. length (fst f) = 2 \<and> fst f \<notin> set composite_tags \<and> length (snd f) \<le> 99"
    and "distinct (map fst fs)"
  shows "parseEMV (tlvEncode fs) = Some (map (\<lambda>f. (fst f, Flat (snd f))) fs)"
proof -
  have "list_all2 (\<lambda>f node. length (fst f) = 2 \<and> length (snd f) \<le> 99 \<and> stored f node)
          fs (map (\<lambda>f. Flat (snd f)) fs)"
    using assms(1) by (auto simp: list_all2_map2 stored_def intro!: list_all2_same [THEN iffD2])
  from parseEMV_fields [OF this assms(2)]
  show ?thesis by (simp add: zip_map_map zip_same_conv_map)
qed

text \<open>
  An instance with four fields.
\<close>

theorem parseEMV_flat_roundtrip_witness:
  "parseEMV ''0002015303764540510.505802TH'' =
     Some [(''00'', Flat ''01''), (''53'', Flat ''764''), (''54'', Flat ''10.50''), (''58'', Flat ''TH'')]"
proof -
  let ?fs = "[(''00'', ''01''), (''53'', ''764''), (''54'', ''10.50''), (''58'', ''TH'')]"
  have a: "\<forall>f \<in> set ?fs. length (fst f) = 2 \<and> fst f \<notin> set composite_tags \<and> length (snd f) \<le> 99"
    by (simp add: composite_tags_def)
  have b: "distinct (map fst ?fs)"
    by simp
  have c: "tlvEncode ?fs = ''0002015303764540510.505802TH''"
    by code_simp
  from parseEMV_flat_roundtrip [OF a b] show ?thesis
    unfolding c by simp
qed









text \<open>
  Claim C8. A payload that is \<^verbatim>\<open>null\<close>, empty, or not made of hexadecimal digits only
  gets the verdict \<^verbatim>\<open>REVIEW\<close> with the reason \<^verbatim>\<open>QR not found or invalid\<close>. The
  verdict does not depend on the parser or on the checksum: it is returned also for a
  payload on which \<^verbatim>\<open>parseEMV\<close> would not return, as the instance below shows.
\<close>

theorem verifySlip_invalid_payload:
  assumes "payload = None \<or> (\<exists>p. payload = Some p \<and> (p = [] \<or> \<not> hexShape p))"
  shows "verifySlip near expectedPromptpay payload =
           Some \<lparr>slipStatus = REVIEW, slipReason = Some ''QR not found or invalid''\<rparr>"
  using assms by (auto simp: verifySlip_def)

text \<open>An instance: the payload \<^verbatim>\<open>00-4\<close>, on which the parser loops.\<close>

theorem verifySlip_invalid_payload_witness:
  "\<not> hexShape ''00-4'' \<and> parseEMV ''00-4'' = None \<and>
   verifySlip (\<lambda>v. True) ''0812345678'' (Some ''00-4'') =
     Some \<lparr>slipStatus = REVIEW, slipReason = Some ''QR not found or invalid''\<rparr>"
proof -
  have h: "\<not> hexShape ''00-4''"
    by (simp add: hexShape_def isHexChar_def)
  then have "Some ''00-4'' = None \<or> (\<exists>p. Some ''00-4'' = Some p \<and> (p = [] \<or> \<not> hexShape p))"
    by simp
  from verifySlip_invalid_payload [OF this] h parseEMV_00m4 show ?thesis
    by simp
qed

text \<open>
  Claim C9, amended. Let \<^verbatim>\<open>verifyCRC\<close> return ok on a payload whose first \<^verbatim>\<open>6304\<close> is
  at \<open>k\<close>, and let \<open>p < k\<close> be a position such that the two characters of the byte
  that contains \<open>p\<close> are hexadecimal digits. Replacing the character at \<open>p\<close> by a
  hexadecimal digit of another value, in a way that creates no \<^verbatim>\<open>6304\<close> before \<open>k\<close>,
  changes \<^verbatim>\<open>expected\<close> and makes \<^verbatim>\<open>ok\<close> false.
\<close>

theorem verifyCRC_sensitive:
  assumes "ok (verifyCRC payload)"
    and "take 4 (drop k payload) = ''6304''" and "\<forall>j<k. take 4 (drop j payload) \<noteq> ''6304''"
    and "p < k"
    and "isHexChar (payload ! (2 * (p div 2)))" and "isHexChar (payload ! (2 * (p div 2) + 1))"
    and "isHexChar c" and "digitValue c \<noteq> digitValue (payload ! p)"
    and "\<forall>j<k. take 4 (drop j (payload[p := c])) \<noteq> ''6304''"
  shows "expected (verifyCRC (payload[p := c])) \<noteq> expected (verifyCRC payload) \<and>
         \<not> ok (verifyCRC (payload[p := c]))"
proof -
  have marker': "take 4 (drop k (payload[p := c])) = ''6304''"
    using assms(2,4) by (simp add: drop_update_cancel)
  have o: "ok (verifyCRC payload) \<longleftrightarrow> expected (verifyCRC payload) = actual (verifyCRC payload)"
    by (simp add: verifyCRC_found [OF assms(2,3)])
  have o': "ok (verifyCRC (payload[p := c])) \<longleftrightarrow>
            expected (verifyCRC (payload[p := c])) = actual (verifyCRC (payload[p := c]))"
    by (simp add: verifyCRC_found [OF marker' assms(9)])
  note aux = verifyCRC_sensitive_aux [OF assms(2-9)]
  from aux(1) have "expected (verifyCRC (payload[p := c])) \<noteq> actual (verifyCRC (payload[p := c]))"
    using assms(1) unfolding o aux(2) by simp
  with aux(1) o' show ?thesis
    by simp
qed

text \<open>
  The claim as stated fails in three ways. Replacing \<^verbatim>\<open>5\<close> by \<^verbatim>\<open>6\<close> at the start of
  the first payload creates an earlier \<^verbatim>\<open>6304\<close>, followed by the checksum of that
  shorter prefix: the result is ok again. Replacing \<^verbatim>\<open>a\<close> by \<^verbatim>\<open>A\<close> in the second
  payload changes the character and not its value. In the third payload the other
  character of the byte is not a hexadecimal digit, the byte is read as \<^verbatim>\<open>NaN\<close> before
  and after, and \<^verbatim>\<open>expected\<close> is unchanged.
\<close>

theorem verifyCRC_sensitive_counterexample:
  "ok (verifyCRC ''530403F263043171'') \<and> indexOf ''530403F263043171'' ''6304'' = 8 \<and>
   isHexChar (''530403F263043171'' ! 0) \<and> isHexChar CHR ''6'' \<and>
   ''530403F263043171'' ! 0 \<noteq> CHR ''6'' \<and>
   ''530403F263043171''[0 := CHR ''6''] = ''630403F263043171'' \<and>
   ok (verifyCRC ''630403F263043171'') \<and>
   ok (verifyCRC ''0002a163046835'') \<and> indexOf ''0002a163046835'' ''6304'' = 6 \<and>
   isHexChar (''0002a163046835'' ! 4) \<and> isHexChar CHR ''A'' \<and>
   ''0002a163046835'' ! 4 \<noteq> CHR ''A'' \<and>
   ''0002a163046835''[4 := CHR ''A''] = ''0002A163046835'' \<and>
   expected (verifyCRC ''0002A163046835'') = expected (verifyCRC ''0002a163046835'') \<and>
   ok (verifyCRC ''0002A163046835'') \<and>
   ok (verifyCRC ''zA6304D261'') \<and> indexOf ''zA6304D261'' ''6304'' = 2 \<and>
   isHexChar (''zA6304D261'' ! 1) \<and> isHexChar CHR ''B'' \<and>
   digitValue (''zA6304D261'' ! 1) \<noteq> digitValue CHR ''B'' \<and>
   ''zA6304D261''[1 := CHR ''B''] = ''zB6304D261'' \<and>
   expected (verifyCRC ''zB6304D261'') = expected (verifyCRC ''zA6304D261'') \<and>
   ok (verifyCRC ''zB6304D261'')"
proof -
  have "indexOf ''530403F263043171'' ''6304'' = 8" "indexOf ''0002a163046835'' ''6304'' = 6"
    "indexOf ''zA6304D261'' ''6304'' = 2"
    by code_simp+
  moreover have "isHexChar (''530403F263043171'' ! 0)" "isHexChar CHR ''6''"
    "isHexChar (''0002a163046835'' ! 4)" "isHexChar CHR ''A''"
    "isHexChar (''zA6304D261'' ! 1)" "isHexChar CHR ''B''"
    by code_simp+
  moreover have "digitValue (''zA6304D261'' ! 1) \<noteq> digitValue CHR ''B''"
    by code_simp
  moreover have "''530403F263043171''[0 := CHR ''6''] = ''630403F263043171''"
    "''0002a163046835''[4 := CHR ''A''] = ''0002A163046835''"
    "''zA6304D261''[1 := CHR ''B''] = ''zB6304D261''"
    by code_simp+
  ultimately show ?thesis
    by (simp add: verifyCRC_530403F263043171 verifyCRC_630403F263043171 verifyCRC_0002a163046835
        verifyCRC_0002A163046835 verifyCRC_zA6304D261 verifyCRC_zB6304D261)
qed

text \<open>An instance: the digit \<^verbatim>\<open>1\<close> of the value of the first field becomes \<^verbatim>\<open>2\<close>.\<close>

theorem verifyCRC_sensitive_witness:
  "''0002016304D5A9''[5 := CHR ''2''] = ''0002026304D5A9'' \<and>
   expected (verifyCRC ''0002026304D5A9'') \<noteq> expected (verifyCRC ''0002016304D5A9'') \<and>
   \<not> ok (verifyCRC ''0002026304D5A9'') \<and>
   expected (verifyCRC ''0002026304D5A9'') = Some ''8CF9'' \<and>
   expected (verifyCRC ''0002016304D5A9'') = Some ''D5A9''"
proof -
  let ?p = "''0002016304D5A9''"
  have u: "?p[5 := CHR ''2''] = ''0002026304D5A9''"
    by code_simp
  have ev: "verifyCRC ?p = \<lparr>ok = True, expected = Some ''D5A9'', actual = Some ''D5A9''\<rparr>"
    by (rule verifyCRC_0002016304D5A9)
  then have h1: "ok (verifyCRC ?p)"
    by simp
  have h2: "take 4 (drop 6 ?p) = ''6304''"
    by simp
  have "list_all (\<lambda>j. take 4 (drop j ?p) \<noteq> ''6304'') [0..<6]"
    by code_simp
  then have h3: "\<forall>j<6. take 4 (drop j ?p) \<noteq> ''6304''"
    by (simp add: list_all_iff)
  have h4: "(5::nat) < 6"
    by simp
  have h5: "isHexChar (?p ! (2 * (5 div 2)))" and h6: "isHexChar (?p ! (2 * (5 div 2) + 1))"
    and h7: "isHexChar CHR ''2''"
    by code_simp+
  have h8: "digitValue CHR ''2'' \<noteq> digitValue (?p ! 5)"
    by code_simp
  have "list_all (\<lambda>j. take 4 (drop j (?p[5 := CHR ''2''])) \<noteq> ''6304'') [0..<6]"
    by code_simp
  then have h9: "\<forall>j<6. take 4 (drop j (?p[5 := CHR ''2''])) \<noteq> ''6304''"
    by (simp add: list_all_iff)
  from verifyCRC_sensitive [OF h1 h2 h3 h4 h5 h6 h7 h8 h9] u ev verifyCRC_0002026304D5A9
  show ?thesis
    by simp
qed




end
